theory Spec2Isabelle
  imports Main "HOL-Library.Char_ord" "HOL-Library.List_Lexorder" "HOL-Library.Product_Lexorder"
    "HOL-Library.Multiset"
begin

section \<open>Python string primitives\<close>

text \<open>
  Strings are lists of characters, the first 256 code points. The patterns of the
  scraper only look at ASCII characters; among these code points \<open>\d\<close> matches
  exactly \<open>0\<close> .. \<open>9\<close>. The separators the scraper splits on are non-empty
  literals.
\<close>

definition startswith :: "string \<Rightarrow> string \<Rightarrow> bool" where
  \<comment> \<open>\<open>s.startswith(p)\<close>\<close>
  "startswith s p = (take (length p) s = p)"

fun contains :: "string \<Rightarrow> string \<Rightarrow> bool" where
  \<comment> \<open>\<open>sub in s\<close>\<close>
  "contains [] sub = (sub = [])"
| "contains (c # cs) sub = (startswith (c # cs) sub \<or> contains cs sub)"

fun rsplit_last :: "string \<Rightarrow> string \<Rightarrow> string" where
  \<comment> \<open>\<open>s.rsplit(sep, 1)[-1]\<close>: what follows the rightmost occurrence of \<open>sep\<close>,
      the whole of \<open>s\<close> when \<open>sep\<close> does not occur\<close>
  "rsplit_last sep [] = []"
| "rsplit_last sep (c # cs) =
     (if contains cs sep then rsplit_last sep cs
      else if startswith (c # cs) sep then drop (length sep) (c # cs)
      else c # cs)"

definition is_digit :: "char \<Rightarrow> bool" where
  "is_digit c = (c \<in> set ''0123456789'')"

section \<open>The article heuristic\<close>

definition is_article :: "string \<Rightarrow> bool" where
  "is_article url =
     (let u = rsplit_last ''https://'' url in
      if CHR ''-'' \<notin> set u then False
      else let tail = rsplit_last ''-'' u in 3 < length (filter is_digit tail))"

text \<open>
  The heuristic as the specification words it: the last path segment is what follows
  the final \<open>/\<close>, and the digits counted are those after the final \<open>-\<close> of that
  segment.
\<close>

definition last_path_segment :: "string \<Rightarrow> string" where
  "last_path_segment url = rsplit_last ''/'' url"

definition spec_isArticle :: "string \<Rightarrow> bool" where
  "spec_isArticle url =
     (let seg = last_path_segment url in
      CHR ''-'' \<in> set seg \<and> 3 < length (filter is_digit (rsplit_last ''-'' seg)))"


fun str_remove :: "string \<Rightarrow> string \<Rightarrow> string" where
  \<comment> \<open>\<open>s.replace(old, '')\<close>: the occurrences of \<open>old\<close> are removed in one pass from
      the left, without overlap\<close>
  "str_remove old [] = []"
| "str_remove old (c # cs) =
     (if old \<noteq> [] \<and> startswith (c # cs) old
      then str_remove old (drop (length old - 1) cs)
      else c # str_remove old cs)"

fun split_on :: "char \<Rightarrow> string \<Rightarrow> string list" where
  \<comment> \<open>\<open>s.split(d)\<close> for a separator of one character\<close>
  "split_on d [] = [[]]"
| "split_on d (c # cs) =
     (if c = d then [] # split_on d cs
      else (case split_on d cs of h # t \<Rightarrow> (c # h) # t | [] \<Rightarrow> [[c]]))"

fun join :: "string \<Rightarrow> string list \<Rightarrow> string" where
  \<comment> \<open>\<open>sep.join(xs)\<close>\<close>
  "join sep [] = []"
| "join sep [x] = x"
| "join sep (x # y # ys) = x @ sep @ join sep (y # ys)"

definition is_space :: "char \<Rightarrow> bool" where
  \<comment> \<open>the characters \<open>str.isspace\<close> accepts, among the first 256 code points\<close>
  "is_space c = (c \<in> set [CHR 0x09, CHR 0x0A, CHR 0x0B, CHR 0x0C, CHR 0x0D, CHR 0x1C, CHR 0x1D,
                            CHR 0x1E, CHR 0x1F, CHR 0x20, CHR 0x85, CHR 0xA0])"

definition strip :: "string \<Rightarrow> string" where
  \<comment> \<open>\<open>s.strip()\<close>\<close>
  "strip s = rev (dropWhile is_space (rev (dropWhile is_space s)))"

definition lower_char :: "char \<Rightarrow> char" where
  "lower_char c =
     (let n = of_char c :: nat in
      if (0x41 \<le> n \<and> n \<le> 0x5A) \<or> (0xC0 \<le> n \<and> n \<le> 0xDE \<and> n \<noteq> 0xD7)
      then char_of (n + 0x20) else c)"

definition lower :: "string \<Rightarrow> string" where
  \<comment> \<open>\<open>s.lower()\<close> on the first 256 code points\<close>
  "lower s = map lower_char s"

section \<open>Canonical keys\<close>

definition article_url :: "string \<Rightarrow> string" where
  \<comment> \<open>the grouping key of \<open>get_all_article_links\<close>: \<open>x.rsplit('https://', 1)[-1]\<close>\<close>
  "article_url x = rsplit_last ''https://'' x"

definition clean_url :: "string \<Rightarrow> string" where
  \<comment> \<open>the grouping key of \<open>get_all_records\<close>\<close>
  "clean_url x =
     join ''/'' (filter (\<lambda>i. i \<noteq> [])
       (map strip (split_on (CHR ''/'') (str_remove ''https://'' (str_remove ''http://'' x)))))"

section \<open>Values, exceptions and external capabilities\<close>

datatype exn = TypeError | ValueError | IndexError | AttributeError | ExternalError

text \<open>
  The Python values that flow through the keyword and metadata code: a string, an
  integer (the page parser turns an all-digit metadata value into one), a list of strings,
  or a dictionary, of which only the keys matter here. A missing metadata key reads as the
  empty dictionary.
\<close>

datatype pyval = PStr string | PInt int | PList "string list" | PDict "string list"

fun truthy :: "pyval \<Rightarrow> bool" where
  "truthy (PStr s) = (s \<noteq> [])"
| "truthy (PInt i) = (i \<noteq> 0)"
| "truthy (PList l) = (l \<noteq> [])"
| "truthy (PDict ks) = (ks \<noteq> [])"

definition py_or :: "pyval \<Rightarrow> pyval \<Rightarrow> pyval" where
  \<comment> \<open>\<open>a or b\<close>\<close>
  "py_or a b = (if truthy a then a else b)"

fun py_iter :: "pyval \<Rightarrow> exn + string list" where
  \<comment> \<open>the elements a \<open>for\<close> loop over the value visits\<close>
  "py_iter (PStr s) = Inr (map (\<lambda>c. [c]) s)"
| "py_iter (PInt i) = Inl TypeError"
| "py_iter (PList l) = Inr l"
| "py_iter (PDict ks) = Inr ks"

fun py_strip :: "pyval \<Rightarrow> exn + string" where
  \<comment> \<open>\<open>v.strip()\<close>\<close>
  "py_strip (PStr s) = Inr (strip s)"
| "py_strip v = Inl AttributeError"

type_synonym pydate = "nat \<times> nat \<times> nat"

type_synonym pydatetime = "pydate \<times> nat \<times> nat \<times> nat"

type_synonym row3 = "string \<times> string \<times> pydatetime"

record response =
  status_code :: nat
  resp_text :: string
  resp_json :: "exn + string list list"

definition response_ok :: "response \<Rightarrow> bool" where
  \<comment> \<open>the truth value of a \<open>requests.Response\<close>\<close>
  "response_ok r = (\<not> (400 \<le> status_code r \<and> status_code r < 600))"

record parsed_article =
  a_title :: string
  a_meta_keywords :: "string list"
  a_keywords :: "string list"
  a_meta_data :: "string \<rightharpoonup> pyval"
  a_meta_description :: string
  a_text :: string
  a_summary :: string
  a_publish_date :: "pydatetime option"

text \<open>
  What the scraper takes from outside: \<open>safe_get\<close> (the throttled GET, \<open>None\<close> when the
  request fails), the page parser (download, parse and nlp of \<open>newspaper\<close>), the anchors
  of an HTML page, the enumeration order of a Python set, and three operations of
  \<open>pandas\<close>: \<open>to_datetime\<close> with a format, \<open>sort_values\<close> by the datetime column, and
  \<open>sample\<close> without replacement under the fixed seed 42.
\<close>

record env =
  safe_get :: "string \<Rightarrow> response option"
  article_parse :: "string \<Rightarrow> exn + parsed_article"
  find_hrefs :: "string \<Rightarrow> string list"
  set_order :: "string list \<Rightarrow> string list"
  to_datetime :: "string \<Rightarrow> string \<Rightarrow> exn + pydatetime"
  sort_values :: "row3 list \<Rightarrow> row3 list"
  sample :: "nat \<Rightarrow> row3 list \<Rightarrow> row3 list"

section \<open>Digit patterns and dates\<close>

fun findall_digits :: "nat \<Rightarrow> string \<Rightarrow> string list" where
  \<comment> \<open>\<open>re.findall(r'\d{n}', s)\<close> for \<open>n > 0\<close>: the runs of \<open>n\<close> digits, from the left,
      without overlap\<close>
  "findall_digits n [] = []"
| "findall_digits n (c # cs) =
     (if n \<le> length (c # cs) \<and> list_all is_digit (take n (c # cs))
      then take n (c # cs) # findall_digits n (drop (n - 1) cs)
      else findall_digits n cs)"

definition ends_with_d8 :: "string \<Rightarrow> bool" where
  "ends_with_d8 s = (8 \<le> length s \<and> list_all is_digit (drop (length s - 8) s))"

definition findall_d8_end :: "string \<Rightarrow> string list" where
  \<comment> \<open>\<open>re.compile(r'\d{8}$').findall(s)\<close>; \<open>$\<close> also matches before a final newline\<close>
  "findall_d8_end s =
     (if ends_with_d8 s then [drop (length s - 8) s]
      else if s \<noteq> [] \<and> last s = CHR 0x0A \<and> ends_with_d8 (butlast s)
      then [drop (length s - 9) (butlast s)]
      else [])"

definition digit_val :: "char \<Rightarrow> nat" where
  "digit_val c = of_char c - 48"

definition nat_of_digits :: "string \<Rightarrow> nat" where
  "nat_of_digits ds = foldl (\<lambda>a c. 10 * a + digit_val c) 0 ds"

definition leap_year :: "nat \<Rightarrow> bool" where
  "leap_year y = (y mod 4 = 0 \<and> (y mod 100 \<noteq> 0 \<or> y mod 400 = 0))"

definition days_in_month :: "nat \<Rightarrow> nat \<Rightarrow> nat" where
  "days_in_month y m =
     (if m = 2 then (if leap_year y then 29 else 28)
      else if m = 4 \<or> m = 6 \<or> m = 9 \<or> m = 11 then 30 else 31)"

definition strptime_Ymd :: "string \<Rightarrow> pydate option" where
  \<comment> \<open>\<open>datetime.strptime(s, '%Y%m%d').date()\<close> on a string of 8 digits, the only strings
      the scraper passes; \<open>None\<close> stands for ValueError\<close>
  "strptime_Ymd s =
     (let y = nat_of_digits (take 4 s); m = nat_of_digits (take 2 (drop 4 s));
          d = nat_of_digits (drop 6 s)
      in if 1 \<le> y \<and> 1 \<le> m \<and> m \<le> 12 \<and> 1 \<le> d \<and> d \<le> days_in_month y m
         then Some (y, m, d) else None)"

function show_nat :: "nat \<Rightarrow> string" where
  "show_nat n = (if n < 10 then [char_of (48 + n)] else show_nat (n div 10) @ [char_of (48 + n mod 10)])"
  by pat_completeness auto
termination
  by (relation "measure id") auto

declare show_nat.simps [simp del]

definition pad2 :: "nat \<Rightarrow> string" where
  "pad2 n = (if n < 10 then CHR ''0'' # show_nat n else show_nat n)"

definition strftime_iso :: "pydate \<Rightarrow> string" where
  \<comment> \<open>\<open>d.strftime('%Y-%m-%d')\<close>; the C library prints the year without padding\<close>
  "strftime_iso d = (case d of (y, m, dd) \<Rightarrow> show_nat y @ ''-'' @ pad2 m @ ''-'' @ pad2 dd)"

definition strftime_Ymd :: "pydate \<Rightarrow> string" where
  \<comment> \<open>\<open>d.strftime('%Y%m%d')\<close>\<close>
  "strftime_Ymd d = (case d of (y, m, dd) \<Rightarrow> show_nat y @ pad2 m @ pad2 dd)"

section \<open>Article extraction\<close>

record article_data =
  ad_headline :: string
  ad_content :: string
  ad_summary :: string
  ad_keywords :: string
  ad_companies :: string
  ad_date :: string
  ad_url :: string
  ad_timestamp :: pyval
  ad_archive_url :: string

definition article_data_init :: "string \<Rightarrow> article_data" where
  \<comment> \<open>the dictionary built for a fetched variant; \<open>timestamp\<close> is what \<open>re.findall\<close>
      returns, a list\<close>
  "article_data_init u =
     \<lparr> ad_headline = [], ad_content = [], ad_summary = [], ad_keywords = [],
       ad_companies = [], ad_date = [], ad_url = u,
       ad_timestamp = PList (findall_digits 14 u), ad_archive_url = u \<rparr>"

definition md_getitem :: "(string \<rightharpoonup> pyval) \<Rightarrow> string \<Rightarrow> pyval" where
  \<comment> \<open>\<open>meta_data[k]\<close> on a \<open>defaultdict(dict)\<close>\<close>
  "md_getitem md k = (case md k of None \<Rightarrow> PDict [] | Some v \<Rightarrow> v)"

definition md_get :: "(string \<rightharpoonup> pyval) \<Rightarrow> string \<Rightarrow> pyval \<Rightarrow> pyval" where
  \<comment> \<open>\<open>meta_data.get(k, default)\<close>\<close>
  "md_get md k dflt = (case md k of None \<Rightarrow> dflt | Some v \<Rightarrow> v)"

definition select_keywords :: "parsed_article \<Rightarrow> pyval" where
  "select_keywords article =
     py_or (py_or (py_or (PList (a_meta_keywords article)) (PList (a_keywords article)))
                  (md_getitem (a_meta_data article) ''news_keywords''))
           (md_getitem (a_meta_data article) ''keywords'')"

definition split_if_str :: "pyval \<Rightarrow> pyval" where
  \<comment> \<open>\<open>keywords.split(',') if isinstance(keywords, str) else keywords\<close>\<close>
  "split_if_str v = (case v of PStr s \<Rightarrow> PList (split_on (CHR '','') s) | _ \<Rightarrow> v)"

definition excluded_patterns :: "string list" where
  "excluded_patterns =
     [''^'' @ [CHR 0x5C] @ ''d+$'', ''^LINK'' @ [CHR 0x5C] @ ''|'', ''WSJ'', ''^SYND$'',
      ''factiva'', ''filter'', ''gfx-'', ''factset'']"

datatype compiled = Compiled (search: "string \<Rightarrow> bool")

definition re_compile_list :: "string list \<Rightarrow> exn + compiled" where
  \<comment> \<open>\<open>re.compile\<close> applied to a list: the lookup in the pattern cache hashes the
      argument and raises \<open>TypeError: unhashable type: 'list'\<close>\<close>
  "re_compile_list patterns = Inl TypeError"

definition filter_keywords :: "compiled \<Rightarrow> pyval \<Rightarrow> exn + string" where
  "filter_keywords excluded_keywords kws =
     (case py_iter kws of
        Inl e \<Rightarrow> Inl e
      | Inr ks \<Rightarrow>
          let ks1 = map (str_remove ''wsj'') (filter (\<lambda>k. \<not> search excluded_keywords k) ks)
          in Inr (join '','' (filter (\<lambda>x. \<not> list_ex (\<lambda>excluded. contains (lower x) excluded)
                                                [''factiva'', ''filter'']) ks1)))"

definition companies_of :: "string \<Rightarrow> string" where
  "companies_of kw = join '','' (filter (\<lambda>x. contains x ''US:'') (split_on (CHR '','') kw))"

definition title_of :: "parsed_article \<Rightarrow> exn + string" where
  "title_of article =
     py_strip (py_or (py_or (PStr (a_title article))
                            (md_getitem (a_meta_data article) ''parsely-title'')) (PStr []))"

definition content_of :: "parsed_article \<Rightarrow> string" where
  "content_of article =
     (if a_meta_description article \<noteq> []
      then a_meta_description article @ [CHR 0x0A] @ a_text article
      else a_text article)"

definition summary_of :: "parsed_article \<Rightarrow> pyval" where
  "summary_of article =
     py_or (PStr (a_summary article)) (md_get (a_meta_data article) ''parsely-summary'' (PStr []))"

datatype date_val = DDatetime pydatetime | DStr string

definition date_source :: "parsed_article \<Rightarrow> exn + date_val" where
  \<comment> \<open>\<open>article.publish_date or re.compile(r'\d{8}$').findall(meta_data['article.id'] or '')[0]\<close>\<close>
  "date_source article =
     (case a_publish_date article of
        Some dt \<Rightarrow> Inr (DDatetime dt)
      | None \<Rightarrow>
          (case py_or (md_getitem (a_meta_data article) ''article.id'') (PStr []) of
             PStr s \<Rightarrow> (case findall_d8_end s of [] \<Rightarrow> Inl IndexError | m # ms \<Rightarrow> Inr (DStr m))
           | _ \<Rightarrow> Inl TypeError))"

definition date_parse :: "date_val \<Rightarrow> pydate option" where
  \<comment> \<open>only a string of length 8 is parsed; every other value becomes \<open>None\<close>\<close>
  "date_parse d =
     (case d of
        DStr s \<Rightarrow> (if length s = 8 then strptime_Ymd s else None)
      | DDatetime dt \<Rightarrow> None)"

definition date_string :: "pydate option \<Rightarrow> string" where
  \<comment> \<open>\<open>date.strftime('%Y-%m-%d') if date else ''\<close>\<close>
  "date_string d = (case d of Some dd \<Rightarrow> strftime_iso dd | None \<Rightarrow> [])"

definition date_field :: "parsed_article \<Rightarrow> exn + string" where
  "date_field article =
     (case date_source article of Inl e \<Rightarrow> Inl e | Inr d \<Rightarrow> Inr (date_string (date_parse d)))"

definition build_record ::
  "article_data \<Rightarrow> parsed_article \<Rightarrow> pyval \<Rightarrow> compiled \<Rightarrow> exn + article_data" where
  \<comment> \<open>the statements after \<open>re.compile\<close>, up to \<open>return article_data\<close>\<close>
  "build_record article_data article kws excluded_keywords =
     (case filter_keywords excluded_keywords kws of
        Inl e \<Rightarrow> Inl e
      | Inr kw \<Rightarrow>
     (case title_of article of
        Inl e \<Rightarrow> Inl e
      | Inr title \<Rightarrow>
     (case date_field article of
        Inl e \<Rightarrow> Inl e
      | Inr date_str \<Rightarrow>
     (case py_strip (summary_of article) of
        Inl e \<Rightarrow> Inl e
      | Inr summary \<Rightarrow>
          Inr (article_data
                \<lparr> ad_headline := title, ad_content := strip (content_of article),
                  ad_summary := summary, ad_keywords := strip kw,
                  ad_companies := companies_of kw, ad_date := date_str \<rparr>)))))"

definition process_variant :: "env \<Rightarrow> string \<Rightarrow> exn + article_data option" where
  \<comment> \<open>the body of the \<open>try\<close> for one variant URL: \<open>Inr None\<close> is the \<open>continue\<close> after
      a failed fetch, \<open>Inl e\<close> a raised exception, \<open>Inr (Some d)\<close> the \<open>return\<close>\<close>
  "process_variant ev u =
     (case safe_get ev u of
        None \<Rightarrow> Inr None
      | Some response \<Rightarrow>
          if \<not> response_ok response \<or> status_code response \<noteq> 200 then Inr None
          else
            (case article_parse ev (resp_text response) of
               Inl e \<Rightarrow> Inl e
             | Inr article \<Rightarrow>
                 (case re_compile_list excluded_patterns of
                    Inl e \<Rightarrow> Inl e
                  | Inr excluded_keywords \<Rightarrow>
                      (case build_record (article_data_init u) article
                              (split_if_str (select_keywords article)) excluded_keywords of
                         Inl e \<Rightarrow> Inl e
                       | Inr d \<Rightarrow> Inr (Some d)))))"

fun try_variants :: "(string \<Rightarrow> exn + article_data option) \<Rightarrow> string list \<Rightarrow> article_data option" where
  \<comment> \<open>the \<open>for\<close> loop with its \<open>try\<close>/\<open>except Exception\<close>: a variant that raises or
      continues gives way to the next one, the first one that returns ends the loop, and
      the loop running out is the bare \<open>return\<close>\<close>
  "try_variants body [] = None"
| "try_variants body (u # us) =
     (case body u of
        Inr (Some d) \<Rightarrow> Some d
      | Inr None \<Rightarrow> try_variants body us
      | Inl e \<Rightarrow> try_variants body us)"

definition process_article_url :: "env \<Rightarrow> string list \<Rightarrow> article_data option" where
  "process_article_url ev urls = try_variants (process_variant ev) urls"


definition spec_excluded :: "string \<Rightarrow> bool" where
  \<comment> \<open>the exclusion set as the specification words it, each pattern on its own: purely
      numeric, starts with \<open>LINK|\<close>, contains \<open>WSJ\<close>, exactly \<open>SYND\<close>, contains
      \<open>factiva\<close>, \<open>filter\<close>, \<open>gfx-\<close> or \<open>factset\<close>\<close>
  "spec_excluded k =
     ((k \<noteq> [] \<and> list_all is_digit k) \<or> startswith k ''LINK|'' \<or> contains k ''WSJ''
      \<or> k = ''SYND'' \<or> contains k ''factiva'' \<or> contains k ''filter'' \<or> contains k ''gfx-''
      \<or> contains k ''factset'')"

definition digit_run_at :: "nat \<Rightarrow> string \<Rightarrow> nat \<Rightarrow> bool" where
  \<comment> \<open>a substring of \<open>n\<close> digits starts at position \<open>i\<close> of \<open>s\<close>\<close>
  "digit_run_at n s i = (i + n \<le> length s \<and> list_all is_digit (take n (drop i s)))"

section \<open>The snapshot index and capture sampling\<close>



record scrapper =
  self_url :: string
  self_start_date :: pydate
  self_end_date :: pydate
  self_topics :: "string list"
  self_max_workers :: nat
  self_no_of_captures :: int

definition cdx_url :: "string \<Rightarrow> pydate \<Rightarrow> pydate \<Rightarrow> string" where
  "cdx_url u start_date end_date =
     ''https://web.archive.org/cdx/search/cdx'' @ ''?url='' @ u @ ''&fl=timestamp,original''
     @ ''&from='' @ strftime_Ymd start_date @ ''&to='' @ strftime_Ymd end_date
     @ ''&output=json'' @ ''&filter=mimetype:text/html'' @ ''&filter=statuscode:200''
     @ ''&collapse=digest''"

definition cdx_query :: "env \<Rightarrow> string \<Rightarrow> pydate \<Rightarrow> pydate \<Rightarrow> exn + string list list" where
  \<comment> \<open>\<open>resp.json()\<close> is the table of the response, header row first; it is \<open>Inl\<close> when
      the body does not decode\<close>
  "cdx_query ev u start_date end_date =
     (case safe_get ev (cdx_url u start_date end_date) of
        None \<Rightarrow> Inr []
      | Some resp \<Rightarrow>
          if \<not> response_ok resp then Inr []
          else (case resp_json resp of Inl e \<Rightarrow> Inl e | Inr table \<Rightarrow> Inr (drop 1 table)))"

definition frame_width_ok :: "string list list \<Rightarrow> bool" where
  \<comment> \<open>\<open>pd.DataFrame(records, columns=['timestamp', 'original'])\<close> pads short rows and
      raises ValueError unless the widest row has exactly two cells\<close>
  "frame_width_ok recs = (list_ex (\<lambda>r. length r = 2) recs \<and> list_all (\<lambda>r. length r \<le> 2) recs)"

fun parse_datetimes :: "env \<Rightarrow> string list \<Rightarrow> exn + pydatetime list" where
  \<comment> \<open>\<open>pd.to_datetime(df['timestamp'], format='%Y%m%d%H%M%S')\<close>, which raises when one
      value does not parse\<close>
  "parse_datetimes ev [] = Inr []"
| "parse_datetimes ev (ts # rest) =
     (case to_datetime ev (''%Y%m%d%H%M%S'') ts of
        Inl e \<Rightarrow> Inl e
      | Inr dt \<Rightarrow>
          (case parse_datetimes ev rest of
             Inl e \<Rightarrow> Inl e
           | Inr dts \<Rightarrow> Inr (dt # dts)))"

definition frame_rows :: "string list list \<Rightarrow> pydatetime list \<Rightarrow> row3 list" where
  \<comment> \<open>the rows of the frame with their \<open>datetime\<close> column, for rows of two cells\<close>
  "frame_rows recs dts = map (\<lambda>p. case p of (r, dt) \<Rightarrow> (r ! 0, r ! 1, dt)) (zip recs dts)"

definition capture_key :: "row3 \<Rightarrow> pydate \<times> string" where
  \<comment> \<open>the grouping columns \<open>date\<close> and \<open>clean_url\<close>\<close>
  "capture_key r = (case r of (ts, orig, dt) \<Rightarrow> (fst dt, clean_url orig))"

definition group_rows :: "('a \<Rightarrow> 'k::linorder) \<Rightarrow> 'a list \<Rightarrow> 'a list list" where
  \<comment> \<open>\<open>groupby\<close>: one group per key, the groups in the order of their keys, the rows of
      a group in the order of the frame\<close>
  "group_rows key rows =
     map (\<lambda>k. filter (\<lambda>r. key r = k) rows) (sort (remdups (map key rows)))"

definition random_choice :: "env \<Rightarrow> nat \<Rightarrow> row3 list \<Rightarrow> row3 list" where
  "random_choice ev n df =
     (if length df = 0 then [] else sample ev (min n (length df)) df)"

definition sample_captures :: "env \<Rightarrow> nat \<Rightarrow> string list list \<Rightarrow> exn + string list list" where
  \<comment> \<open>the branch \<open>if self.no_of_captures > -1\<close> of \<open>get_all_records\<close>, entered with a
      non-empty table; a padded row has no \<open>original\<close>, on which \<open>x.replace\<close> raises
      AttributeError\<close>
  "sample_captures ev n recs =
     (if \<not> frame_width_ok recs then Inl ValueError
      else
        (case parse_datetimes ev (map hd (filter (\<lambda>r. r \<noteq> []) recs)) of
           Inl e \<Rightarrow> Inl e
         | Inr dts \<Rightarrow>
             if list_ex (\<lambda>r. length r \<noteq> 2) recs then Inl AttributeError
             else
               Inr (map (\<lambda>r. case r of (ts, orig, dt) \<Rightarrow> [ts, orig])
                      (concat (map (random_choice ev n)
                                 (group_rows capture_key (sort_values ev (frame_rows recs dts))))))))"

fun fan_out :: "string list \<Rightarrow> string list list \<Rightarrow> exn + (string \<times> string) list" where
  \<comment> \<open>\<open>[[x[0], x[1] + '/' + topic] for x in records for topic in self.topics]\<close>; a row
      of fewer than two cells raises IndexError as soon as a topic makes the code read it\<close>
  "fan_out tps [] = Inr []"
| "fan_out tps (x # xs) =
     (if tps \<noteq> [] \<and> length x < 2 then Inl IndexError
      else (case fan_out tps xs of
              Inl e \<Rightarrow> Inl e
            | Inr rest \<Rightarrow> Inr (map (\<lambda>topic. (x ! 0, x ! 1 @ ''/'' @ topic)) tps @ rest)))"

definition get_all_records :: "env \<Rightarrow> scrapper \<Rightarrow> exn + (string \<times> string) list" where
  "get_all_records ev self =
     (case cdx_query ev (self_url self) (self_start_date self) (self_end_date self) of
        Inl e \<Rightarrow> Inl e
      | Inr recs \<Rightarrow>
          if recs = [] then Inr []
          else
            (case (if self_no_of_captures self > - 1
                   then sample_captures ev (nat (self_no_of_captures self)) recs
                   else Inr recs) of
               Inl e \<Rightarrow> Inl e
             | Inr rows \<Rightarrow> fan_out (self_topics self) rows))"

section \<open>Link discovery and aggregation\<close>





fun link_dates :: "env \<Rightarrow> string list \<Rightarrow> exn + pydatetime option list" where
  \<comment> \<open>the \<open>date\<close> column: \<open>to_datetime\<close> of the first run of 8 digits of each URL, \<open>None\<close>
      (a missing value) for a URL without one\<close>
  "link_dates ev [] = Inr []"
| "link_dates ev (u # us) =
     (case (case findall_digits 8 u of
              [] \<Rightarrow> Inr None
            | m # ms \<Rightarrow> (case to_datetime ev (''%Y%m%d'') m of Inl e \<Rightarrow> Inl e | Inr dt \<Rightarrow> Inr (Some dt))) of
        Inl e \<Rightarrow> Inl e
      | Inr d \<Rightarrow> (case link_dates ev us of Inl e \<Rightarrow> Inl e | Inr ds \<Rightarrow> Inr (d # ds)))"

definition aggregate_links :: "env \<Rightarrow> string list \<Rightarrow> exn + string list list" where
  \<comment> \<open>the frame of \<open>get_all_article_links\<close>: the URLs grouped by \<open>article_url\<close>\<close>
  "aggregate_links ev all_links =
     (case link_dates ev all_links of
        Inl e \<Rightarrow> Inl e
      | Inr ds \<Rightarrow> Inr (group_rows article_url all_links))"


section \<open>The crawl\<close>



section \<open>Facts about the string primitives\<close>

lemma startswith_iff: "startswith s p \<longleftrightarrow> (\<exists>post. s = p @ post)"
proof
  assume "startswith s p"
  then have "s = p @ drop (length p) s"
    unfolding startswith_def using append_take_drop_id [of "length p" s] by simp
  then show "\<exists>post. s = p @ post" ..
next
  assume "\<exists>post. s = p @ post"
  then show "startswith s p" unfolding startswith_def by auto
qed

lemma contains_iff: "contains s sub \<longleftrightarrow> (\<exists>pre post. s = pre @ sub @ post)"
proof (induction s)
  case Nil
  then show ?case by simp
next
  case (Cons c cs)
  show ?case
  proof
    assume "contains (c # cs) sub"
    then consider "startswith (c # cs) sub" | "contains cs sub" by auto
    then show "\<exists>pre post. c # cs = pre @ sub @ post"
    proof cases
      case 1
      then obtain post where "c # cs = sub @ post" unfolding startswith_iff by blast
      then have "c # cs = [] @ sub @ post" by simp
      then show ?thesis by blast
    next
      case 2
      then obtain pre post where "cs = pre @ sub @ post" using Cons.IH by blast
      then have "c # cs = (c # pre) @ sub @ post" by simp
      then show ?thesis by blast
    qed
  next
    assume "\<exists>pre post. c # cs = pre @ sub @ post"
    then obtain pre post where e: "c # cs = pre @ sub @ post" by blast
    show "contains (c # cs) sub"
    proof (cases pre)
      case Nil
      then have "startswith (c # cs) sub" using e unfolding startswith_iff by auto
      then show ?thesis by simp
    next
      case (Cons a pre')
      then have "cs = pre' @ sub @ post" using e by simp
      then have "contains cs sub" using Cons.IH by blast
      then show ?thesis by simp
    qed
  qed
qed

lemma contains_char: "contains s [d] \<longleftrightarrow> d \<in> set s"
  unfolding contains_iff by (auto simp: in_set_conv_decomp)

lemma rsplit_last_id: "\<not> contains s sep \<Longrightarrow> rsplit_last sep s = s"
  by (induction s) simp_all

lemma contains_drop: "contains (drop n s) sep \<Longrightarrow> contains s sep"
proof -
  assume "contains (drop n s) sep"
  then obtain pre post where "drop n s = pre @ sep @ post" unfolding contains_iff by blast
  then have "s = (take n s @ pre) @ sep @ post"
    using append_take_drop_id [of n s] by simp
  then show ?thesis unfolding contains_iff by blast
qed

lemma rsplit_last_free: "sep \<noteq> [] \<Longrightarrow> \<not> contains (rsplit_last sep s) sep"
proof (induction s)
  case Nil
  then show ?case by simp
next
  case (Cons c cs)
  obtain a sep' where sep: "sep = a # sep'" using Cons.prems by (cases sep) auto
  show ?case
  proof (cases "contains cs sep")
    case True
    then show ?thesis using Cons by simp
  next
    case False
    then have "\<not> contains (drop (length sep') cs) sep" using contains_drop by blast
    then have "\<not> contains (drop (length sep) (c # cs)) sep" using sep by simp
    then show ?thesis using False by simp
  qed
qed

lemma rsplit_last_decomp:
  "(\<not> contains s sep \<and> rsplit_last sep s = s) \<or> (\<exists>pre. s = pre @ sep @ rsplit_last sep s)"
proof (induction s)
  case Nil
  then show ?case by simp
next
  case (Cons c cs)
  show ?case
  proof (cases "contains cs sep")
    case True
    then obtain pre where "cs = pre @ sep @ rsplit_last sep cs"
      using Cons.IH by blast
    then have "c # cs = (c # pre) @ sep @ rsplit_last sep (c # cs)" using True by simp
    then show ?thesis by blast
  next
    case False
    show ?thesis
    proof (cases "startswith (c # cs) sep")
      case True
      then have "c # cs = sep @ drop (length sep) (c # cs)"
        unfolding startswith_def using append_take_drop_id [of "length sep" "c # cs"] by simp
      then have "c # cs = [] @ sep @ rsplit_last sep (c # cs)"
        using False True by simp
      then show ?thesis by blast
    next
      case False
      then show ?thesis using \<open>\<not> contains cs sep\<close> by simp
    qed
  qed
qed

lemma rsplit_last_char: "d \<notin> set tail \<Longrightarrow> rsplit_last [d] (pre @ d # tail) = tail"
proof (induction pre)
  case Nil
  then show ?case by (simp add: contains_char startswith_def)
next
  case (Cons a pre)
  have "contains (pre @ d # tail) [d]" by (simp add: contains_char)
  then show ?case using Cons by simp
qed

lemma rsplit_last_https:
  "\<not> contains r ''https://'' \<Longrightarrow> rsplit_last ''https://'' (p @ ''https://'' @ r) = r"
proof (induction p)
  case Nil
  have "\<not> contains (''ttps://'' @ r) ''https://''"
    using Nil by (simp add: startswith_def)
  then show ?case by (simp add: startswith_def)
next
  case (Cons a p)
  have "contains (p @ ''https://'' @ r) ''https://''" unfolding contains_iff by blast
  then show ?case using Cons by simp
qed

lemma rsplit_last_keeps_tail:
  assumes c: "c \<notin> set sep" and t: "\<not> contains t sep"
  shows "\<exists>u'. rsplit_last sep (p @ c # t) = u' @ c # t"
proof -
  let ?s = "p @ c # t"
  let ?u = "rsplit_last sep ?s"
  from rsplit_last_decomp [of ?s sep]
  consider "?u = ?s" | pre where "?s = pre @ sep @ ?u" by blast
  then show ?thesis
  proof cases
    case 1
    then show ?thesis by blast
  next
    case 2
    then have "p @ (c # t) = (pre @ sep) @ ?u" by simp
    then obtain us where
      us: "(p = (pre @ sep) @ us \<and> us @ (c # t) = ?u) \<or> (p @ us = pre @ sep \<and> c # t = us @ ?u)"
      unfolding append_eq_append_conv2 by blast
    show ?thesis
    proof (cases "us @ (c # t) = ?u")
      case True
      then show ?thesis by metis
    next
      case False
      then have a: "p @ us = pre @ sep" and b: "c # t = us @ ?u" using us by auto
      show ?thesis
      proof (cases us)
        case Nil
        then have "?u = [] @ c # t" using b by simp
        then show ?thesis by blast
      next
        case (Cons x us')
        then have x: "x = c" and t': "t = us' @ ?u" using b by auto
        have "(p @ [c]) @ us' = pre @ sep" using a Cons x by simp
        then obtain vs where
          vs: "(p @ [c] = pre @ vs \<and> vs @ us' = sep) \<or> ((p @ [c]) @ vs = pre \<and> us' = vs @ sep)"
          unfolding append_eq_append_conv2 by blast
        have False
        proof (cases "us' = vs @ sep")
          case True
          then have "t = vs @ sep @ ?u" using t' by simp
          then show False using t unfolding contains_iff by blast
        next
          case False
          then have e1: "p @ [c] = pre @ vs" and e2: "vs @ us' = sep" using vs by auto
          show False
          proof (cases vs rule: rev_cases)
            case Nil
            then have "t = [] @ sep @ ?u" using e2 t' by simp
            then show False using t unfolding contains_iff by blast
          next
            case (snoc ws y)
            then have "y = c" using e1 by (metis append_assoc snoc_eq_iff_butlast last_snoc)
            then have "c \<in> set sep" using e2 snoc by auto
            then show False using c by simp
          qed
        qed
        then show ?thesis ..
      qed
    qed
  qed
qed

section \<open>The article heuristic: what it counts\<close>

lemma is_article_hyphen_tail:
  assumes "CHR ''-'' \<notin> set t" and "\<not> contains t ''https://''"
  shows "is_article (p @ ''-'' @ t) = (3 < length (filter is_digit t))"
proof -
  have "CHR ''-'' \<notin> set ''https://''" by simp
  then obtain u' where u: "rsplit_last ''https://'' (p @ CHR ''-'' # t) = u' @ CHR ''-'' # t"
    using rsplit_last_keeps_tail [OF _ assms(2)] by blast
  have "rsplit_last ''-'' (u' @ CHR ''-'' # t) = t"
    using rsplit_last_char [OF assms(1)] by simp
  then show ?thesis unfolding is_article_def using u by simp
qed

text \<open>
  Claim C5, as amended. \<open>is_article\<close> looks at what follows the last \<open>https://\<close> of
  the URL (the whole URL when there is none): the URL is an article exactly when that
  remainder has a \<open>-\<close> and what follows its final \<open>-\<close> holds more than 3 digit
  characters. The final \<open>-\<close> is that of the whole remainder, so the counted text may
  run over several path segments. In particular a URL ending in \<open>-12345\<close> is an
  article, one ending in \<open>-12\<close> or \<open>-123\<close> is not, and after a final hyphen followed
  by text without \<open>https://\<close> the test is the strict bound on the digits of that text.
\<close>

theorem is_article_final_hyphen:
  "(is_article url \<longleftrightarrow>
      (\<exists>pre tail. rsplit_last ''https://'' url = pre @ CHR ''-'' # tail \<and> CHR ''-'' \<notin> set tail
          \<and> 3 < length (filter is_digit tail)))
   \<and> (CHR ''-'' \<notin> set t \<and> \<not> contains t ''https://''
        \<longrightarrow> is_article (p @ ''-'' @ t) = (3 < length (filter is_digit t)))
   \<and> is_article (p @ ''-12345'') \<and> \<not> is_article (p @ ''-12'') \<and> \<not> is_article (p @ ''-123'')"
proof -
  let ?u = "rsplit_last ''https://'' url"
  have one: "is_article url \<longleftrightarrow>
      (\<exists>pre tail. ?u = pre @ CHR ''-'' # tail \<and> CHR ''-'' \<notin> set tail
          \<and> 3 < length (filter is_digit tail))" (is "?L = ?R")
  proof
    assume L: ?L
    then have "CHR ''-'' \<in> set ?u" unfolding is_article_def by (auto simp: Let_def split: if_splits)
    then obtain pre tail where d: "?u = pre @ CHR ''-'' # tail" "CHR ''-'' \<notin> set tail"
      using split_list_last by fastforce
    have "rsplit_last ''-'' ?u = tail" using rsplit_last_char [OF d(2), of pre] d(1) by simp
    then have "3 < length (filter is_digit tail)"
      using L unfolding is_article_def by (auto simp: Let_def split: if_splits)
    then show ?R using d by blast
  next
    assume ?R
    then obtain pre tail where d: "?u = pre @ CHR ''-'' # tail" "CHR ''-'' \<notin> set tail"
      "3 < length (filter is_digit tail)" by blast
    have "rsplit_last ''-'' ?u = tail" using rsplit_last_char [OF d(2), of pre] d(1) by simp
    then show ?L unfolding is_article_def using d by (simp add: Let_def)
  qed
  have two: "CHR ''-'' \<notin> set t \<and> \<not> contains t ''https://''
        \<longrightarrow> is_article (p @ ''-'' @ t) = (3 < length (filter is_digit t))"
    using is_article_hyphen_tail by blast
  have a: "is_article (p @ ''-'' @ ''12345'')"
    by (subst is_article_hyphen_tail) (simp_all add: startswith_def is_digit_def)
  have b: "\<not> is_article (p @ ''-'' @ ''12'')"
    by (subst is_article_hyphen_tail) (simp_all add: startswith_def is_digit_def)
  have c: "\<not> is_article (p @ ''-'' @ ''123'')"
    by (subst is_article_hyphen_tail) (simp_all add: startswith_def is_digit_def)
  show ?thesis using one two a b c by simp
qed

theorem is_article_final_hyphen_witness:
  "CHR ''-'' \<notin> set ''2025/q1'' \<and> \<not> contains ''2025/q1'' ''https://''
   \<and> is_article (''https://www.marketwatch.com/story/outlook'' @ ''-'' @ ''2025/q1'')"
proof -
  have h: "CHR ''-'' \<notin> set ''2025/q1'' \<and> \<not> contains ''2025/q1'' ''https://''"
    by (simp add: startswith_def)
  have "3 < length (filter is_digit ''2025/q1'')" by (simp add: is_digit_def)
  then show ?thesis
    using h is_article_final_hyphen [of "''x''" "''2025/q1''" "''https://www.marketwatch.com/story/outlook''"]
    by blast
qed

text \<open>
  Claim C5 as stated restricts the test to the last path segment. The code does not:
  in \<open>.../story/outlook-2025/q1\<close> the last segment \<open>q1\<close> has no hyphen and one
  digit, yet the text after the final hyphen, \<open>2025/q1\<close>, has five digits.
\<close>

theorem is_article_last_segment_counterexample:
  "is_article ''https://www.marketwatch.com/story/outlook-2025/q1''
   \<and> \<not> spec_isArticle ''https://www.marketwatch.com/story/outlook-2025/q1''"
  by code_simp

text \<open>
  Claim C10. Wrapping a URL does not change the verdict: when \<open>r\<close> has no further
  \<open>https://\<close>, \<open>is_article\<close> gives the same answer on \<open>p + 'https://' + r\<close>
  and on \<open>'https://' + r\<close>, so digits of the wrapper prefix \<open>p\<close> (the 14-digit
  capture timestamp of an archive URL) are never counted.
\<close>

theorem is_article_archive_wrapping:
  "\<not> contains r ''https://'' \<Longrightarrow>
     is_article (p @ ''https://'' @ r) = is_article (''https://'' @ r)"
  using rsplit_last_https [of r p] rsplit_last_https [of r "[]"]
  unfolding is_article_def by simp

theorem is_article_archive_wrapping_witness:
  "\<not> contains ''www.marketwatch.com/story/a-b-12'' ''https://''
   \<and> is_article (''https://web.archive.org/web/20250110123456/'' @ ''https://'' @ ''www.marketwatch.com/story/a-b-12'')
      = is_article (''https://'' @ ''www.marketwatch.com/story/a-b-12'')
   \<and> \<not> is_article (''https://'' @ ''www.marketwatch.com/story/a-b-12'')"
proof -
  have h: "\<not> contains ''www.marketwatch.com/story/a-b-12'' ''https://''" by code_simp
  have n: "\<not> is_article (''https://'' @ ''www.marketwatch.com/story/a-b-12'')" by code_simp
  show ?thesis
    using h n is_article_archive_wrapping [OF h, of "''https://web.archive.org/web/20250110123456/''"]
    by blast
qed

section \<open>Canonical keys are fixed points\<close>

lemma split_on_nonempty: "split_on d s \<noteq> []"
  by (induction s) (auto split: list.splits)

lemma split_on_no_sep: "seg \<in> set (split_on d s) \<Longrightarrow> d \<notin> set seg"
proof (induction s arbitrary: seg)
  case Nil
  then show ?case by simp
next
  case (Cons c cs)
  obtain h t where ht: "split_on d cs = h # t"
    using split_on_nonempty [of d cs] by (cases "split_on d cs") auto
  have h: "d \<notin> set h" and t: "\<And>x. x \<in> set t \<Longrightarrow> d \<notin> set x"
    using Cons.IH ht by auto
  show ?case
  proof (cases "c = d")
    case True
    then have "seg = [] \<or> seg \<in> set (split_on d cs)" using Cons.prems by auto
    then show ?thesis using Cons.IH by auto
  next
    case False
    then have "seg = c # h \<or> seg \<in> set t" using Cons.prems ht by auto
    then show ?thesis using False h t by auto
  qed
qed

lemma split_on_single: "d \<notin> set x \<Longrightarrow> split_on d x = [x]"
  by (induction x) (auto split: list.splits)

lemma split_on_append: "d \<notin> set x \<Longrightarrow> split_on d (x @ d # rest) = x # split_on d rest"
  by (induction x) (auto split: list.splits)

lemma dropWhile_hd: "xs \<noteq> [] \<Longrightarrow> \<not> P (hd xs) \<Longrightarrow> dropWhile P xs = xs"
  by (cases xs) auto

lemma last_dropWhile_eq: "dropWhile P xs \<noteq> [] \<Longrightarrow> last (dropWhile P xs) = last xs"
proof -
  assume a: "dropWhile P xs \<noteq> []"
  have "last (takeWhile P xs @ dropWhile P xs) = last (dropWhile P xs)"
    using a by (rule last_appendR)
  then show ?thesis by simp
qed

lemma strip_fixed: "s \<noteq> [] \<Longrightarrow> \<not> is_space (hd s) \<Longrightarrow> \<not> is_space (last s) \<Longrightarrow> strip s = s"
proof -
  assume a: "s \<noteq> []" "\<not> is_space (hd s)" "\<not> is_space (last s)"
  have 1: "dropWhile is_space s = s" using a by (simp add: dropWhile_hd)
  have "hd (rev s) = last s" using a by (simp add: hd_rev)
  then have 2: "dropWhile is_space (rev s) = rev s" using a by (simp add: dropWhile_hd)
  show ?thesis unfolding strip_def using 1 2 by simp
qed

lemma strip_ends:
  assumes "strip s \<noteq> []"
  shows "\<not> is_space (hd (strip s)) \<and> \<not> is_space (last (strip s))"
proof -
  define t where "t = dropWhile is_space s"
  define r where "r = dropWhile is_space (rev t)"
  have sr: "strip s = rev r" unfolding strip_def r_def t_def by simp
  have r: "r \<noteq> []" using assms sr by simp
  have t: "t \<noteq> []"
  proof
    assume "t = []"
    then have "r = []" unfolding r_def by simp
    then show False using r by simp
  qed
  have "\<not> is_space (hd r)" using r unfolding r_def by (rule hd_dropWhile)
  then have l: "\<not> is_space (last (strip s))" using r sr by (simp add: last_rev)
  have ht: "\<not> is_space (hd t)" using t unfolding t_def by (rule hd_dropWhile)
  have "last r = last (rev t)" using r unfolding r_def by (rule last_dropWhile_eq)
  then have "last r = hd t" using t by (simp add: last_rev)
  then have "hd (strip s) = hd t" using r sr by (simp add: hd_rev)
  then show ?thesis using l ht by simp
qed

lemma strip_idem: "strip (strip s) = strip s"
proof (cases "strip s = []")
  case True
  have "strip [] = []" by (simp add: strip_def)
  then show ?thesis using True by simp
next
  case False
  have "\<not> is_space (hd (strip s))" "\<not> is_space (last (strip s))"
    using strip_ends [OF False] by simp_all
  then show ?thesis using False by (rule_tac strip_fixed)
qed

lemma strip_subset: "set (strip s) \<subseteq> set s"
proof -
  have "set (strip s) \<subseteq> set (dropWhile is_space s)"
    unfolding strip_def using set_dropWhileD by fastforce
  then show ?thesis using set_dropWhileD by fastforce
qed


lemma contains_dslash_append:
  "CHR ''/'' \<notin> set x \<Longrightarrow> contains (x @ CHR ''/'' # rest) ''//'' = contains (CHR ''/'' # rest) ''//''"
  by (induction x) (auto simp: startswith_def)

lemma no_slash_no_dslash: "CHR ''/'' \<notin> set x \<Longrightarrow> \<not> contains x ''//''"
  by (induction x) (auto simp: startswith_def)

lemma join_no_dslash:
  "\<forall>seg \<in> set segs. seg \<noteq> [] \<and> CHR ''/'' \<notin> set seg \<Longrightarrow> \<not> contains (join ''/'' segs) ''//''"
proof (induction "''/''" segs rule: join.induct)
  case 1
  then show ?case by simp
next
  case (2 x)
  then show ?case by (simp add: no_slash_no_dslash)
next
  case (3 x y ys)
  have y: "y \<noteq> []" "CHR ''/'' \<notin> set y" and x: "CHR ''/'' \<notin> set x" using 3(2) by auto
  have ih: "\<not> contains (join ''/'' (y # ys)) ''//''" using 3 by simp
  obtain a y' where ay: "y = a # y'" using y by (cases y) auto
  obtain rest where rest: "join ''/'' (y # ys) = a # rest"
    using ay by (cases ys) auto
  have "a \<noteq> CHR ''/''" using y ay by auto
  then have "\<not> contains (CHR ''/'' # join ''/'' (y # ys)) ''//''"
    using ih rest by (simp add: startswith_def)
  then show ?case using contains_dslash_append [OF x] by simp
qed

lemma contains_trans: "contains s b \<Longrightarrow> contains b a \<Longrightarrow> contains s a"
proof -
  assume "contains s b" "contains b a"
  then obtain p q p' q' where "s = p @ b @ q" "b = p' @ a @ q'" unfolding contains_iff by blast
  then have "s = (p @ p') @ a @ (q' @ q)" by simp
  then show ?thesis unfolding contains_iff by blast
qed

lemma str_remove_absent: "\<not> contains s old \<Longrightarrow> str_remove old s = s"
  by (induction s) auto

lemma split_on_join:
  "segs \<noteq> [] \<Longrightarrow> \<forall>seg \<in> set segs. CHR ''/'' \<notin> set seg \<Longrightarrow>
     split_on (CHR ''/'') (join ''/'' segs) = segs"
proof (induction "''/''" segs rule: join.induct)
  case 1
  then show ?case by simp
next
  case (2 x)
  then show ?case by (simp add: split_on_single)
next
  case (3 x y ys)
  have "split_on (CHR ''/'') (x @ CHR ''/'' # join ''/'' (y # ys)) = x # split_on (CHR ''/'') (join ''/'' (y # ys))"
    using 3(3) by (intro split_on_append) simp
  then show ?case using 3 by simp
qed

lemma clean_url_fixed:
  assumes "\<forall>seg \<in> set segs. seg \<noteq> [] \<and> CHR ''/'' \<notin> set seg \<and> strip seg = seg"
  shows "clean_url (join ''/'' segs) = join ''/'' segs"
proof -
  let ?y = "join ''/'' segs"
  have nd: "\<not> contains ?y ''//''" using assms join_no_dslash by blast
  have "contains ''http://'' ''//''" "contains ''https://'' ''//''" by (simp_all add: startswith_def)
  then have "\<not> contains ?y ''http://''" "\<not> contains ?y ''https://''"
    using nd contains_trans by blast+
  then have r: "str_remove ''https://'' (str_remove ''http://'' ?y) = ?y"
    by (simp add: str_remove_absent)
  have m: "map strip segs = segs" using assms by (simp add: map_idI)
  have f: "filter (\<lambda>i. i \<noteq> []) segs = segs" using assms by (simp add: filter_id_conv)
  show ?thesis
  proof (cases "segs = []")
    case True
    then show ?thesis by (simp add: clean_url_def strip_def)
  next
    case False
    then have "split_on (CHR ''/'') ?y = segs" using assms split_on_join by blast
    then show ?thesis unfolding clean_url_def r using m f by simp
  qed
qed

lemma clean_url_segments:
  "\<exists>segs. clean_url x = join ''/'' segs
      \<and> (\<forall>seg \<in> set segs. seg \<noteq> [] \<and> CHR ''/'' \<notin> set seg \<and> strip seg = seg)"
proof -
  let ?parts = "split_on (CHR ''/'') (str_remove ''https://'' (str_remove ''http://'' x))"
  let ?segs = "filter (\<lambda>i. i \<noteq> []) (map strip ?parts)"
  have "\<forall>seg \<in> set ?segs. seg \<noteq> [] \<and> CHR ''/'' \<notin> set seg \<and> strip seg = seg"
  proof
    fix seg assume "seg \<in> set ?segs"
    then obtain p where p: "p \<in> set ?parts" "seg = strip p" "seg \<noteq> []" by auto
    have "CHR ''/'' \<notin> set p" using p(1) by (rule split_on_no_sep)
    then have "CHR ''/'' \<notin> set seg" using p(2) strip_subset by blast
    then show "seg \<noteq> [] \<and> CHR ''/'' \<notin> set seg \<and> strip seg = seg"
      using p strip_idem by simp
  qed
  then show ?thesis unfolding clean_url_def by blast
qed

text \<open>
  Claim C9. Both canonical keys of the scraper are idempotent: the key of link
  aggregation (what follows the last \<open>https://\<close>) and the key of capture sampling
  (schemes removed, path segments stripped, empty segments dropped) map their own
  results to themselves.
\<close>

theorem canonical_key_idempotent:
  "article_url (article_url u) = article_url u \<and> clean_url (clean_url u) = clean_url u"
proof
  have "\<not> contains (rsplit_last ''https://'' u) ''https://''"
    by (rule rsplit_last_free) simp
  then show "article_url (article_url u) = article_url u"
    unfolding article_url_def by (rule rsplit_last_id)
next
  obtain segs where "clean_url u = join ''/'' segs"
    "\<forall>seg \<in> set segs. seg \<noteq> [] \<and> CHR ''/'' \<notin> set seg \<and> strip seg = seg"
    using clean_url_segments by blast
  then show "clean_url (clean_url u) = clean_url u" using clean_url_fixed by simp
qed

section \<open>Article extraction: what a variant yields\<close>

lemma process_variant_no_record: "process_variant ev u \<noteq> Inr (Some d)"
  unfolding process_variant_def re_compile_list_def
  by (simp split: option.splits sum.splits)

lemma try_variants_all_fail:
  "(\<And>u d. body u \<noteq> Inr (Some d)) \<Longrightarrow> try_variants body urls = None"
proof (induction urls)
  case Nil
  then show ?case by simp
next
  case (Cons u us)
  have ih: "try_variants body us = None" using Cons by simp
  show ?case
  proof (cases "body u")
    case (Inl e)
    then show ?thesis using ih by simp
  next
    case (Inr r)
    then have "r = None" using Cons.prems [of u] by (cases r) auto
    then show ?thesis using Inr ih by simp
  qed
qed

text \<open>
  Claim C1. The keyword scenario of the claim does not come out of
  \<open>process_article_url\<close>: the exclusion patterns are handed to \<open>re.compile\<close> as a
  list, which raises TypeError for every fetched page, the handler moves on to the next
  variant, and the function returns \<open>None\<close> whatever the page says. The statements after
  the compile step do produce the claimed values, \<open>-markets,US:AAPL\<close> and \<open>US:AAPL\<close>, once
  they are given a pattern that excludes as the specification lists it.
\<close>

theorem process_article_url_never_returns_record:
  "process_article_url ev urls = None
   \<and> filter_keywords (Compiled spec_excluded)
        (split_if_str (PStr ''wsj-markets,LINK|123,US:AAPL,factset-data'')) = Inr ''-markets,US:AAPL''
   \<and> companies_of ''-markets,US:AAPL'' = ''US:AAPL''"
proof -
  have a: "process_article_url ev urls = None"
    unfolding process_article_url_def
    by (rule try_variants_all_fail) (rule process_variant_no_record)
  have b: "filter_keywords (Compiled spec_excluded)
        (split_if_str (PStr ''wsj-markets,LINK|123,US:AAPL,factset-data'')) = Inr ''-markets,US:AAPL''"
    by code_simp
  have c: "companies_of ''-markets,US:AAPL'' = ''US:AAPL''" by code_simp
  show ?thesis using a b c by simp
qed

text \<open>
  Claim C2. The date code keeps only a string of length 8: a publish date found by the
  parser is a datetime, falls into the \<open>else\<close> branch and is replaced by \<open>None\<close>, so
  the stored date is empty. The fallback on the trailing 8 digits of \<open>article.id\<close> works
  as claimed: a valid date is stored in ISO form, an invalid one as the empty string.
\<close>

theorem date_field_drops_publish_date:
  "date_field (article \<lparr> a_publish_date := Some dt \<rparr>) = Inr []
   \<and> date_field (article \<lparr> a_publish_date := None,
                           a_meta_data := [''article.id'' \<mapsto> PStr ''WP-MKTW-20250110''] \<rparr>)
       = Inr ''2025-01-10''
   \<and> date_field (article \<lparr> a_publish_date := None,
                           a_meta_data := [''article.id'' \<mapsto> PStr ''WP-MKTW-20251399''] \<rparr>)
       = Inr []"
proof -
  have a: "date_field (article \<lparr> a_publish_date := Some dt \<rparr>) = Inr []"
    by (simp add: date_field_def date_source_def date_parse_def date_string_def)
  have f1: "findall_d8_end ''WP-MKTW-20250110'' = [''20250110'']" by code_simp
  have p1: "date_string (date_parse (DStr ''20250110'')) = ''2025-01-10''" by code_simp
  have f2: "findall_d8_end ''WP-MKTW-20251399'' = [''20251399'']" by code_simp
  have p2: "date_string (date_parse (DStr ''20251399'')) = []" by code_simp
  have b: "date_field (article \<lparr> a_publish_date := None,
                           a_meta_data := [''article.id'' \<mapsto> PStr ''WP-MKTW-20250110''] \<rparr>)
       = Inr ''2025-01-10''"
    by (simp add: date_field_def date_source_def md_getitem_def py_or_def f1 p1)
  have c: "date_field (article \<lparr> a_publish_date := None,
                           a_meta_data := [''article.id'' \<mapsto> PStr ''WP-MKTW-20251399''] \<rparr>)
       = Inr []"
    by (simp add: date_field_def date_source_def md_getitem_def py_or_def f2 p2)
  show ?thesis using a b c by simp
qed

section \<open>The timestamp field\<close>

lemma digit_run_at_Cons:
  "digit_run_at n (c # cs) (Suc i) = digit_run_at n cs i"
  by (simp add: digit_run_at_def)

lemma digit_run_at_0:
  "digit_run_at n s 0 = (n \<le> length s \<and> list_all is_digit (take n s))"
  by (simp add: digit_run_at_def)

lemma findall_digits_empty:
  assumes "0 < n"
  shows "findall_digits n s = [] \<longleftrightarrow> (\<forall>i. \<not> digit_run_at n s i)"
proof (induction s)
  case Nil
  then show ?case using assms by (simp add: digit_run_at_def)
next
  case (Cons c cs)
  show ?case
  proof (cases "digit_run_at n (c # cs) 0")
    case True
    then have "findall_digits n (c # cs) \<noteq> []" by (simp add: digit_run_at_0)
    then show ?thesis using True by blast
  next
    case False
    then have "findall_digits n (c # cs) = findall_digits n cs" by (auto simp: digit_run_at_0)
    moreover have "(\<forall>i. \<not> digit_run_at n (c # cs) i) \<longleftrightarrow> (\<forall>i. \<not> digit_run_at n cs i)"
    proof
      assume a: "\<forall>i. \<not> digit_run_at n (c # cs) i"
      show "\<forall>i. \<not> digit_run_at n cs i"
      proof
        fix i show "\<not> digit_run_at n cs i" using a digit_run_at_Cons [of n c cs i] by blast
      qed
    next
      assume a: "\<forall>i. \<not> digit_run_at n cs i"
      show "\<forall>i. \<not> digit_run_at n (c # cs) i"
      proof
        fix i show "\<not> digit_run_at n (c # cs) i"
          using a False digit_run_at_Cons [of n c cs] by (cases i) auto
      qed
    qed
    ultimately show ?thesis using Cons.IH by simp
  qed
qed

lemma findall_digits_first:
  "findall_digits n s \<noteq> [] \<Longrightarrow>
     \<exists>i. digit_run_at n s i \<and> (\<forall>j<i. \<not> digit_run_at n s j)
         \<and> hd (findall_digits n s) = take n (drop i s)"
proof (induction s)
  case Nil
  then show ?case by simp
next
  case (Cons c cs)
  show ?case
  proof (cases "digit_run_at n (c # cs) 0")
    case True
    then have "hd (findall_digits n (c # cs)) = take n (drop 0 (c # cs))"
      by (simp add: digit_run_at_0)
    then show ?thesis using True by blast
  next
    case False
    then have e: "findall_digits n (c # cs) = findall_digits n cs" by (auto simp: digit_run_at_0)
    then obtain i where i: "digit_run_at n cs i" "\<forall>j<i. \<not> digit_run_at n cs j"
      "hd (findall_digits n cs) = take n (drop i cs)"
      using Cons by auto
    have 1: "digit_run_at n (c # cs) (Suc i)" using i(1) by (simp add: digit_run_at_Cons)
    have 2: "\<forall>j<Suc i. \<not> digit_run_at n (c # cs) j"
    proof (intro allI impI)
      fix j assume "j < Suc i"
      then show "\<not> digit_run_at n (c # cs) j"
        using False i(2) digit_run_at_Cons [of n c cs] by (cases j) auto
    qed
    have 3: "hd (findall_digits n (c # cs)) = take n (drop (Suc i) (c # cs))"
      using e i(3) by simp
    show ?thesis using 1 2 3 by blast
  qed
qed

lemma findall_digits_elems:
  "t \<in> set (findall_digits n s) \<Longrightarrow> length t = n \<and> list_all is_digit t"
proof (induction n s arbitrary: t rule: findall_digits.induct)
  case (1 n)
  then show ?case by simp
next
  case (2 n c cs)
  show ?case
  proof (cases "n \<le> length (c # cs) \<and> list_all is_digit (take n (c # cs))")
    case True
    then have "t = take n (c # cs) \<or> t \<in> set (findall_digits n (drop (n - 1) cs))"
      using 2(3) by auto
    then show ?thesis
    proof
      assume "t = take n (c # cs)"
      then show ?thesis using True by auto
    next
      assume "t \<in> set (findall_digits n (drop (n - 1) cs))"
      then show ?thesis using 2(1) True by blast
    qed
  next
    case False
    then have "t \<in> set (findall_digits n cs)" using 2(3) by auto
    then show ?thesis using 2(2) False by blast
  qed
qed

lemma build_record_keeps:
  "build_record ad article kws rx = Inr d \<Longrightarrow>
     ad_timestamp d = ad_timestamp ad \<and> ad_url d = ad_url ad \<and> ad_archive_url d = ad_archive_url ad"
  unfolding build_record_def by (auto split: sum.splits)

text \<open>
  Claim C4, as amended. The \<open>timestamp\<close> entry of the dictionary built for a fetched
  variant is the list that \<open>re.findall\<close> returns: all runs of 14 digits of the variant
  URL, from the left and without overlap. The list is empty exactly when the URL has no
  run of 14 digits; otherwise its first element is the leftmost such run. The later
  statements leave the entry, \<open>url\<close> and \<open>archive_url\<close> as they were built.
\<close>

theorem timestamp_is_findall:
  "ad_timestamp (article_data_init u) = PList (findall_digits 14 u)
   \<and> (\<forall>t \<in> set (findall_digits 14 u). length t = 14 \<and> list_all is_digit t)
   \<and> (findall_digits 14 u = [] \<longleftrightarrow> (\<forall>i. \<not> digit_run_at 14 u i))
   \<and> (findall_digits 14 u \<noteq> [] \<longrightarrow>
        (\<exists>i. digit_run_at 14 u i \<and> (\<forall>j<i. \<not> digit_run_at 14 u j)
            \<and> hd (findall_digits 14 u) = take 14 (drop i u)))
   \<and> (build_record (article_data_init u) article kws rx = Inr d \<longrightarrow>
        ad_timestamp d = PList (findall_digits 14 u) \<and> ad_url d = u \<and> ad_archive_url d = u)"
proof -
  have a: "ad_timestamp (article_data_init u) = PList (findall_digits 14 u)"
    "ad_url (article_data_init u) = u" "ad_archive_url (article_data_init u) = u"
    by (simp_all add: article_data_init_def)
  have b: "\<forall>t \<in> set (findall_digits 14 u). length t = 14 \<and> list_all is_digit t"
    using findall_digits_elems by blast
  have c: "findall_digits 14 u = [] \<longleftrightarrow> (\<forall>i. \<not> digit_run_at 14 u i)"
    by (rule findall_digits_empty) simp
  have d: "findall_digits 14 u \<noteq> [] \<longrightarrow>
        (\<exists>i. digit_run_at 14 u i \<and> (\<forall>j<i. \<not> digit_run_at 14 u j)
            \<and> hd (findall_digits 14 u) = take 14 (drop i u))"
    using findall_digits_first by blast
  have e: "build_record (article_data_init u) article kws rx = Inr d \<longrightarrow>
        ad_timestamp d = PList (findall_digits 14 u) \<and> ad_url d = u \<and> ad_archive_url d = u"
    using build_record_keeps [of "article_data_init u" article kws rx d] a by simp
  show ?thesis using a(1) b c d e by blast
qed

text \<open>
  Claim C4 as stated makes the field a string. For an archive URL with one capture
  timestamp the field is the one-element list, not the string, and for a URL without a
  run of 14 digits it is the empty list, not the empty string.
\<close>

theorem timestamp_not_string_counterexample:
  "ad_timestamp (article_data_init
      ''https://web.archive.org/web/20250110123456/https://www.marketwatch.com/story/x-1234'')
     = PList [''20250110123456'']
   \<and> ad_timestamp (article_data_init
      ''https://web.archive.org/web/20250110123456/https://www.marketwatch.com/story/x-1234'')
     \<noteq> PStr ''20250110123456''
   \<and> ad_timestamp (article_data_init ''https://www.marketwatch.com/story/x-1234'') = PList []
   \<and> ad_timestamp (article_data_init ''https://www.marketwatch.com/story/x-1234'') \<noteq> PStr []"
  by code_simp


theorem timestamp_is_findall_witness:
  "findall_digits 14 ''https://web.archive.org/web/20250110123456/https://www.marketwatch.com/story/a-20250110999999''
     = [''20250110123456'', ''20250110999999'']
   \<and> (\<exists>i. digit_run_at 14 ''https://web.archive.org/web/20250110123456/https://www.marketwatch.com/story/a-20250110999999'' i
          \<and> (\<forall>j<i. \<not> digit_run_at 14 ''https://web.archive.org/web/20250110123456/https://www.marketwatch.com/story/a-20250110999999'' j)
          \<and> ''20250110123456'' = take 14 (drop i ''https://web.archive.org/web/20250110123456/https://www.marketwatch.com/story/a-20250110999999''))
   \<and> build_record (article_data_init ''https://web.archive.org/web/20250110123456/https://www.marketwatch.com/story/a-20250110999999'')
      \<lparr> a_title = ''Title'', a_meta_keywords = [], a_keywords = [''markets'', ''US:AAPL''],
        a_meta_data = [''article.id'' \<mapsto> PStr ''ID-20250110''], a_meta_description = [],
        a_text = ''Body'', a_summary = ''Sum'', a_publish_date = None \<rparr>
      (PList [''markets'', ''US:AAPL'']) (Compiled spec_excluded)
     = Inr \<lparr> ad_headline = ''Title'', ad_content = ''Body'', ad_summary = ''Sum'',
        ad_keywords = ''markets,US:AAPL'', ad_companies = ''US:AAPL'', ad_date = ''2025-01-10'',
        ad_url = ''https://web.archive.org/web/20250110123456/https://www.marketwatch.com/story/a-20250110999999'',
        ad_timestamp = PList [''20250110123456'', ''20250110999999''],
        ad_archive_url = ''https://web.archive.org/web/20250110123456/https://www.marketwatch.com/story/a-20250110999999'' \<rparr>"
proof -
  let ?u = "''https://web.archive.org/web/20250110123456/https://www.marketwatch.com/story/a-20250110999999''"
  let ?a = "\<lparr> a_title = ''Title'', a_meta_keywords = [], a_keywords = [''markets'', ''US:AAPL''],
        a_meta_data = [''article.id'' \<mapsto> PStr ''ID-20250110''], a_meta_description = [],
        a_text = ''Body'', a_summary = ''Sum'', a_publish_date = None \<rparr>"
  let ?d = "\<lparr> ad_headline = ''Title'', ad_content = ''Body'', ad_summary = ''Sum'',
        ad_keywords = ''markets,US:AAPL'', ad_companies = ''US:AAPL'', ad_date = ''2025-01-10'',
        ad_url = ''https://web.archive.org/web/20250110123456/https://www.marketwatch.com/story/a-20250110999999'',
        ad_timestamp = PList [''20250110123456'', ''20250110999999''],
        ad_archive_url = ''https://web.archive.org/web/20250110123456/https://www.marketwatch.com/story/a-20250110999999'' \<rparr>"
  have f: "findall_digits 14 ?u = [''20250110123456'', ''20250110999999'']" by code_simp
  have br: "build_record (article_data_init ?u) ?a (PList [''markets'', ''US:AAPL''])
              (Compiled spec_excluded) = Inr ?d"
    by code_simp
  have "findall_digits 14 ?u \<noteq> [] \<longrightarrow>
        (\<exists>i. digit_run_at 14 ?u i \<and> (\<forall>j<i. \<not> digit_run_at 14 ?u j)
            \<and> hd (findall_digits 14 ?u) = take 14 (drop i ?u))"
    using timestamp_is_findall [of ?u ?a "PList [''markets'', ''US:AAPL'']" "Compiled spec_excluded" ?d]
    by blast
  then have "\<exists>i. digit_run_at 14 ?u i \<and> (\<forall>j<i. \<not> digit_run_at 14 ?u j)
            \<and> ''20250110123456'' = take 14 (drop i ?u)"
    using f by simp
  then show ?thesis using f br by blast
qed

section \<open>The crawl over an empty index; link aggregation\<close>






text \<open>
  Claim C3. The key of link aggregation removes text only up to the last \<open>https://\<close>.
  The URL \<open>http://site/a/story-123456\<close> keeps its scheme in the key, its
  \<open>https://\<close> twin does not, and aggregation returns two groups of one URL each.
  The key of capture sampling, which removes both schemes, does bring the two URLs
  together.
\<close>

theorem aggregate_links_scheme_pair:
  "article_url ''http://site/a/story-123456'' = ''http://site/a/story-123456''
   \<and> article_url ''https://site/a/story-123456'' = ''site/a/story-123456''
   \<and> aggregate_links ev [''http://site/a/story-123456'', ''https://site/a/story-123456'']
       = Inr [[''http://site/a/story-123456''], [''https://site/a/story-123456'']]
   \<and> clean_url ''http://site/a/story-123456'' = clean_url ''https://site/a/story-123456''"
proof -
  have a: "article_url ''http://site/a/story-123456'' = ''http://site/a/story-123456''" by code_simp
  have b: "article_url ''https://site/a/story-123456'' = ''site/a/story-123456''" by code_simp
  have d1: "findall_digits 8 ''http://site/a/story-123456'' = []" by code_simp
  have d2: "findall_digits 8 ''https://site/a/story-123456'' = []" by code_simp
  have g: "group_rows article_url [''http://site/a/story-123456'', ''https://site/a/story-123456'']
       = [[''http://site/a/story-123456''], [''https://site/a/story-123456'']]" by code_simp
  have c: "aggregate_links ev [''http://site/a/story-123456'', ''https://site/a/story-123456'']
       = Inr [[''http://site/a/story-123456''], [''https://site/a/story-123456'']]"
  proof -
    have "link_dates ev [''http://site/a/story-123456'', ''https://site/a/story-123456'']
        = Inr [None, None]"
      by (simp only: link_dates.simps d1 d2 list.case sum.case)
    then show ?thesis unfolding aggregate_links_def by (simp only: g sum.case)
  qed
  have d: "clean_url ''http://site/a/story-123456'' = clean_url ''https://site/a/story-123456''"
    by code_simp
  show ?thesis by (intro conjI a b c d)
qed

section \<open>Trying the variants in order\<close>











section \<open>Sampling the captures of a group\<close>

lemma concat_pick:
  "distinct ks \<Longrightarrow> concat (map (\<lambda>k'. if k' = k then v else []) ks) = (if k \<in> set ks then v else [])"
  by (induction ks) auto

lemma filter_chosen_group:
  assumes sub: "\<And>g. mset (ch g) \<subseteq># mset g"
  shows "filter (\<lambda>r. key r = k) (ch (filter (\<lambda>r. key r = k') xs))
           = (if k' = k then ch (filter (\<lambda>r. key r = k) xs) else [])"
proof -
  define g where "g = filter (\<lambda>r. key r = k') xs"
  have "set_mset (mset (ch g)) \<subseteq> set_mset (mset g)" using sub by (rule set_mset_mono)
  then have "set (ch g) \<subseteq> set g" by simp
  then have all: "\<forall>r \<in> set (ch g). key r = k'" unfolding g_def by auto
  show ?thesis
  proof (cases "k' = k")
    case True
    have "filter (\<lambda>r. key r = k') (ch g) = ch g" using all by (intro filter_True) simp
    then show ?thesis using True g_def by simp
  next
    case False
    have "filter (\<lambda>r. key r = k) (ch g) = []" using all False by (intro filter_False) auto
    then show ?thesis using False g_def by simp
  qed
qed

lemma filter_concat_keys:
  assumes sub: "\<And>g. mset (ch g) \<subseteq># mset g"
  shows "filter (\<lambda>r. key r = k) (concat (map (\<lambda>k'. ch (filter (\<lambda>r. key r = k') xs)) ks))
           = concat (map (\<lambda>k'. if k' = k then ch (filter (\<lambda>r. key r = k) xs) else []) ks)"
proof (induction ks)
  case Nil
  then show ?case by simp
next
  case (Cons a ks)
  show ?case using Cons filter_chosen_group [of ch key k a xs, OF sub] by simp
qed

lemma filter_groups:
  assumes sub: "\<And>g. mset (ch g) \<subseteq># mset g"
  shows "filter (\<lambda>r. key r = k) (concat (map ch (group_rows key xs)))
           = (if k \<in> key ` set xs then ch (filter (\<lambda>r. key r = k) xs) else [])"
proof -
  let ?ks = "sort (remdups (map key xs))"
  have d: "distinct ?ks" by simp
  have s: "set ?ks = key ` set xs" by simp
  have "filter (\<lambda>r. key r = k) (concat (map ch (group_rows key xs)))
      = filter (\<lambda>r. key r = k) (concat (map (\<lambda>k'. ch (filter (\<lambda>r. key r = k') xs)) ?ks))"
    by (simp add: group_rows_def comp_def)
  also have "\<dots> = concat (map (\<lambda>k'. if k' = k then ch (filter (\<lambda>r. key r = k) xs) else []) ?ks)"
    using sub by (rule filter_concat_keys)
  also have "\<dots> = (if k \<in> set ?ks then ch (filter (\<lambda>r. key r = k) xs) else [])"
    using d by (rule concat_pick)
  finally show ?thesis using s by simp
qed

lemma count_filter_key:
  "count (mset (filter (\<lambda>r. key r = key x) l)) x = count (mset l) x"
  by simp

lemma chosen_subset:
  assumes sub: "\<And>g. mset (ch g) \<subseteq># mset g"
  shows "mset (concat (map ch (group_rows key xs))) \<subseteq># mset xs"
proof (rule mset_subset_eqI)
  fix x
  define c where "c = concat (map ch (group_rows key xs))"
  define gx where "gx = filter (\<lambda>r. key r = key x) xs"
  have f: "filter (\<lambda>r. key r = key x) c = (if key x \<in> key ` set xs then ch gx else [])"
    unfolding c_def gx_def using sub by (rule filter_groups)
  have "count (mset c) x = count (mset (filter (\<lambda>r. key r = key x) c)) x"
    by (rule count_filter_key [symmetric])
  also have "\<dots> \<le> count (mset (ch gx)) x" unfolding f by simp
  also have "\<dots> \<le> count (mset gx) x" by (rule mset_subset_eq_count [OF sub])
  also have "\<dots> = count (mset xs) x" unfolding gx_def by (rule count_filter_key)
  finally show "count (mset (concat (map ch (group_rows key xs)))) x \<le> count (mset xs) x"
    unfolding c_def .
qed

lemma chosen_count:
  assumes sub: "\<And>g. mset (ch g) \<subseteq># mset g"
    and len: "\<And>g. length (ch g) = min n (length g)"
  shows "length (filter (\<lambda>r. key r = k) (concat (map ch (group_rows key xs))))
           = min n (length (filter (\<lambda>r. key r = k) xs))"
proof (cases "k \<in> key ` set xs")
  case True
  then show ?thesis using filter_groups [of ch key k xs, OF sub] len by simp
next
  case False
  then have "filter (\<lambda>r. key r = k) xs = []" by (auto simp: filter_empty_conv)
  then show ?thesis using False filter_groups [of ch key k xs, OF sub] by simp
qed

lemma random_choice_contract:
  assumes "\<forall>m g. m \<le> length g \<longrightarrow> length (sample ev m g) = m \<and> mset (sample ev m g) \<subseteq># mset g"
  shows "length (random_choice ev n g) = min n (length g)"
    and "mset (random_choice ev n g) \<subseteq># mset g"
  using assms unfolding random_choice_def by auto

lemma parse_datetimes_length:
  "parse_datetimes ev tss = Inr dts \<Longrightarrow> length dts = length tss"
  by (induction tss arbitrary: dts) (auto split: sum.splits)

lemma mset_subset_size_eq:
  fixes A B :: "'a multiset"
  assumes "A \<subseteq># B" and "size A = size B"
  shows "A = B"
proof -
  obtain C where C: "B = A + C" using assms(1) by (auto simp: mset_subset_eq_exists_conv)
  then have "size C = 0" using assms(2) by simp
  then have "C = {#}" by simp
  then show ?thesis using C by simp
qed


lemma mset_take_subset: "mset (take m g) \<subseteq># mset g"
proof -
  have "mset g = mset (take m g) + mset (drop m g)"
    using append_take_drop_id [of m g] mset_append [of "take m g" "drop m g"] by simp
  then show ?thesis by simp
qed

lemma length_filter_mset_eq:
  assumes "mset xs = mset ys"
  shows "length (filter P xs) = length (filter P ys)"
proof -
  have "mset (filter P xs) = mset (filter P ys)" using assms by (simp only: mset_filter)
  then have "size (mset (filter P xs)) = size (mset (filter P ys))" by simp
  then show ?thesis by (simp only: size_mset)
qed

text \<open>
  Claim C8. With a capture limit \<open>N \<ge> 0\<close> and a non-empty index, the records that
  \<open>get_all_records\<close> fans out over the topics are chosen among the rows of the index,
  none more often than it occurs there, and for every key (capture date, \<open>clean_url\<close>)
  exactly \<open>min N\<close> (size of the group) of them carry that key; a group of at most
  \<open>N\<close> rows is chosen whole. This rests on what \<open>pandas\<close> promises: \<open>sample\<close>
  returns \<open>m\<close> of the rows it is given, without replacement, and \<open>sort_values\<close>
  permutes the rows. The seed is fixed, so the choice is a function of the rows and the
  limit: the same input gives the same selection.
\<close>

theorem sampling_per_group:
  assumes smp: "\<forall>m g. m \<le> length g \<longrightarrow>
                  length (sample ev m g) = m \<and> mset (sample ev m g) \<subseteq># mset g"
    and srt: "\<forall>rs. mset (sort_values ev rs) = mset rs"
    and lim: "0 \<le> self_no_of_captures self"
    and qry: "cdx_query ev (self_url self) (self_start_date self) (self_end_date self) = Inr recs"
    and ne: "recs \<noteq> []"
    and ok: "get_all_records ev self = Inr result"
  shows "\<exists>dts chosen.
      parse_datetimes ev (map hd recs) = Inr dts
    \<and> fan_out (self_topics self) (map (\<lambda>r. case r of (ts, orig, dt) \<Rightarrow> [ts, orig]) chosen)
        = Inr result
    \<and> mset chosen \<subseteq># mset (frame_rows recs dts)
    \<and> (\<forall>k. length (filter (\<lambda>r. capture_key r = k) chosen)
             = min (nat (self_no_of_captures self))
                   (length (filter (\<lambda>r. capture_key r = k) (frame_rows recs dts))))
    \<and> (\<forall>k. length (filter (\<lambda>r. capture_key r = k) (frame_rows recs dts))
               \<le> nat (self_no_of_captures self)
           \<longrightarrow> mset (filter (\<lambda>r. capture_key r = k) chosen)
               = mset (filter (\<lambda>r. capture_key r = k) (frame_rows recs dts)))"
proof -
  define n where "n = nat (self_no_of_captures self)"
  obtain rows where sc: "sample_captures ev n recs = Inr rows"
    and res: "fan_out (self_topics self) rows = Inr result"
    using ok qry ne lim unfolding get_all_records_def n_def
    by (auto split: sum.splits if_splits)
  obtain dts where pd: "parse_datetimes ev (map hd (filter (\<lambda>r. r \<noteq> []) recs)) = Inr dts"
    and two: "\<not> list_ex (\<lambda>r. length r \<noteq> 2) recs"
    and rows: "rows = map (\<lambda>r. case r of (ts, orig, dt) \<Rightarrow> [ts, orig])
                 (concat (map (random_choice ev n)
                    (group_rows capture_key (sort_values ev (frame_rows recs dts)))))"
    using sc unfolding sample_captures_def by (auto split: sum.splits if_splits)
  have "\<forall>r \<in> set recs. r \<noteq> []" using two by (auto simp: list_ex_iff)
  then have "filter (\<lambda>r. r \<noteq> []) recs = recs" by (intro filter_True) simp
  then have pd': "parse_datetimes ev (map hd recs) = Inr dts" using pd by simp
  define frame where "frame = frame_rows recs dts"
  define sorted where "sorted = sort_values ev frame"
  define chosen where "chosen = concat (map (random_choice ev n) (group_rows capture_key sorted))"
  have ms: "mset sorted = mset frame" unfolding sorted_def using srt by simp
  have sub: "\<And>g. mset (random_choice ev n g) \<subseteq># mset g"
    using random_choice_contract(2) [OF smp] .
  have len: "\<And>g. length (random_choice ev n g) = min n (length g)"
    using random_choice_contract(1) [OF smp] .
  have c1: "mset chosen \<subseteq># mset frame"
    using chosen_subset [of "random_choice ev n" capture_key sorted, OF sub] ms
    unfolding chosen_def by simp
  have c2: "length (filter (\<lambda>r. capture_key r = k) chosen)
             = min n (length (filter (\<lambda>r. capture_key r = k) frame))" for k
  proof -
    have "length (filter (\<lambda>r. capture_key r = k) chosen)
             = min n (length (filter (\<lambda>r. capture_key r = k) sorted))"
      unfolding chosen_def using sub len by (rule chosen_count)
    then show ?thesis using length_filter_mset_eq [OF ms] by simp
  qed
  have c3: "mset (filter (\<lambda>r. capture_key r = k) chosen)
               = mset (filter (\<lambda>r. capture_key r = k) frame)"
    if small: "length (filter (\<lambda>r. capture_key r = k) frame) \<le> n" for k
  proof (rule mset_subset_size_eq)
    show "mset (filter (\<lambda>r. capture_key r = k) chosen) \<subseteq># mset (filter (\<lambda>r. capture_key r = k) frame)"
      using c1 by (simp only: mset_filter multiset_filter_mono)
    show "size (mset (filter (\<lambda>r. capture_key r = k) chosen))
            = size (mset (filter (\<lambda>r. capture_key r = k) frame))"
    proof -
      have "length (filter (\<lambda>r. capture_key r = k) chosen)
              = length (filter (\<lambda>r. capture_key r = k) frame)"
        using c2 [of k] small by linarith
      then show ?thesis by (simp only: size_mset)
    qed
  qed
  have "fan_out (self_topics self) (map (\<lambda>r. case r of (ts, orig, dt) \<Rightarrow> [ts, orig]) chosen)
          = Inr result"
    using res rows unfolding chosen_def sorted_def frame_def by simp
  then show ?thesis using pd' c1 c2 c3 unfolding frame_def n_def by blast
qed


theorem sampling_per_group_witness:
  "get_all_records
        \<lparr> safe_get = (\<lambda>u. Some \<lparr> status_code = 200, resp_text = [],
              resp_json = Inr [[''timestamp'', ''original''],
                               [''20250110120000'', ''http://www.marketwatch.com/''],
                               [''20250110080000'', ''https://www.marketwatch.com''],
                               [''20250111090000'', ''https://www.marketwatch.com/'']] \<rparr>),
          article_parse = (\<lambda>h. Inl ExternalError), find_hrefs = (\<lambda>h. []), set_order = remdups,
          to_datetime = (\<lambda>f v. Inr ((nat_of_digits (take 4 v), nat_of_digits (take 2 (drop 4 v)),
                                       nat_of_digits (take 2 (drop 6 v))),
                                      nat_of_digits (take 2 (drop 8 v)),
                                      nat_of_digits (take 2 (drop 10 v)), nat_of_digits (drop 12 v))),
          sort_values = sort_key (\<lambda>r. snd (snd r)), sample = take \<rparr>
        \<lparr> self_url = ''www.marketwatch.com'', self_start_date = (2025, 1, 10),
          self_end_date = (2025, 1, 11), self_topics = [''/markets''], self_max_workers = 3,
          self_no_of_captures = 1 \<rparr>
      = Inr [(''20250110080000'', ''https://www.marketwatch.com//markets''),
              (''20250111090000'', ''https://www.marketwatch.com///markets'')]
   \<and> (\<exists>chosen.
         fan_out [''/markets''] (map (\<lambda>r. case r of (ts, orig, dt) \<Rightarrow> [ts, orig]) chosen)
           = Inr [(''20250110080000'', ''https://www.marketwatch.com//markets''),
              (''20250111090000'', ''https://www.marketwatch.com///markets'')]
       \<and> length (filter (\<lambda>r. capture_key r = ((2025, 1, 10), ''www.marketwatch.com'')) chosen) = 1
       \<and> length (filter (\<lambda>r. capture_key r = ((2025, 1, 11), ''www.marketwatch.com'')) chosen) = 1)"
proof -
  let ?ev = "\<lparr> safe_get = (\<lambda>u. Some \<lparr> status_code = 200, resp_text = [],
              resp_json = Inr [[''timestamp'', ''original''],
                               [''20250110120000'', ''http://www.marketwatch.com/''],
                               [''20250110080000'', ''https://www.marketwatch.com''],
                               [''20250111090000'', ''https://www.marketwatch.com/'']] \<rparr>),
          article_parse = (\<lambda>h. Inl ExternalError), find_hrefs = (\<lambda>h. []), set_order = remdups,
          to_datetime = (\<lambda>f v. Inr ((nat_of_digits (take 4 v), nat_of_digits (take 2 (drop 4 v)),
                                       nat_of_digits (take 2 (drop 6 v))),
                                      nat_of_digits (take 2 (drop 8 v)),
                                      nat_of_digits (take 2 (drop 10 v)), nat_of_digits (drop 12 v))),
          sort_values = sort_key (\<lambda>r. snd (snd r)), sample = take \<rparr>"
  let ?self = "\<lparr> self_url = ''www.marketwatch.com'', self_start_date = (2025, 1, 10),
          self_end_date = (2025, 1, 11), self_topics = [''/markets''], self_max_workers = 3,
          self_no_of_captures = 1 \<rparr>"
  let ?recs = "[[''20250110120000'', ''http://www.marketwatch.com/''],
                [''20250110080000'', ''https://www.marketwatch.com''],
                [''20250111090000'', ''https://www.marketwatch.com/'']]"
  let ?res = "[(''20250110080000'', ''https://www.marketwatch.com//markets''),
              (''20250111090000'', ''https://www.marketwatch.com///markets'')]"
  have smp: "\<forall>m g. m \<le> length g \<longrightarrow>
                  length (sample ?ev m g) = m \<and> mset (sample ?ev m g) \<subseteq># mset g"
    by (simp add: mset_take_subset)
  have srt: "\<forall>rs. mset (sort_values ?ev rs) = mset rs" by simp
  have lim: "0 \<le> self_no_of_captures ?self" by simp
  have qry: "cdx_query ?ev (self_url ?self) (self_start_date ?self) (self_end_date ?self) = Inr ?recs"
    by (simp add: cdx_query_def response_ok_def)
  have ne: "?recs \<noteq> []" by simp
  have ok: "get_all_records ?ev ?self = Inr ?res" by code_simp
  obtain dts chosen where d: "parse_datetimes ?ev (map hd ?recs) = Inr dts"
    and r: "fan_out (self_topics ?self) (map (\<lambda>r. case r of (ts, orig, dt) \<Rightarrow> [ts, orig]) chosen)
             = Inr ?res"
    and c: "\<forall>k. length (filter (\<lambda>r. capture_key r = k) chosen)
             = min (nat (self_no_of_captures ?self))
                   (length (filter (\<lambda>r. capture_key r = k) (frame_rows ?recs dts)))"
    using sampling_per_group [OF smp srt lim qry ne ok] by blast
  have dts: "dts = [((2025, 1, 10), 12, 0, 0), ((2025, 1, 10), 8, 0, 0), ((2025, 1, 11), 9, 0, 0)]"
  proof -
    have "parse_datetimes ?ev (map hd ?recs)
        = Inr [((2025, 1, 10), 12, 0, 0), ((2025, 1, 10), 8, 0, 0), ((2025, 1, 11), 9, 0, 0)]"
      by code_simp
    then show ?thesis using d by simp
  qed
  have f1: "length (filter (\<lambda>r. capture_key r = ((2025, 1, 10), ''www.marketwatch.com''))
              (frame_rows ?recs [((2025, 1, 10), 12, 0, 0), ((2025, 1, 10), 8, 0, 0), ((2025, 1, 11), 9, 0, 0)])) = 2"
    by code_simp
  have f2: "length (filter (\<lambda>r. capture_key r = ((2025, 1, 11), ''www.marketwatch.com''))
              (frame_rows ?recs [((2025, 1, 10), 12, 0, 0), ((2025, 1, 10), 8, 0, 0), ((2025, 1, 11), 9, 0, 0)])) = 1"
    by code_simp
  have n1: "nat (self_no_of_captures ?self) = 1" by simp
  have c1: "length (filter (\<lambda>r. capture_key r = ((2025, 1, 10), ''www.marketwatch.com'')) chosen) = 1"
    using c f1 n1 unfolding dts by (metis min.absorb1 one_le_numeral)
  have c2: "length (filter (\<lambda>r. capture_key r = ((2025, 1, 11), ''www.marketwatch.com'')) chosen) = 1"
    using c f2 n1 unfolding dts by (metis min.idem)
  have r': "fan_out [''/markets''] (map (\<lambda>r. case r of (ts, orig, dt) \<Rightarrow> [ts, orig]) chosen)
              = Inr ?res"
    using r by simp
  show ?thesis using ok r' c1 c2 by blast
qed

end
